theory Spec2Isabelle
  imports Main "HOL-Library.Word" "HOL-Library.Sublist"
begin

section \<open>JavaScript strings\<close>

text \<open>
  A JavaScript string is a sequence of 16-bit UTF-16 code units. \<open>String.prototype\<close>
  methods and regular expressions without the \<open>u\<close> flag work on code units, so a
  string is a list of 16-bit words. ASCII literals of the source are written with
  \<open>js\<close>: \<open>js ''429''\<close> is the string \<open>"429"\<close>.
\<close>

type_synonym jschar = "16 word"
type_synonym jsstring = "jschar list"

definition js :: "string \<Rightarrow> jsstring" where
  "js s = map of_char s"

definition backtick :: jschar where
  "backtick = 0x60"

definition LF :: jschar where
  "LF = 0x0A"

text \<open>The three-backtick marker of the source's regular expressions.\<close>

definition fence :: jsstring where
  "fence = [backtick, backtick, backtick]"

text \<open>
  \<open>String.prototype.trim\<close> removes WhiteSpace and LineTerminator code points from both
  ends (ECMAScript: TAB, VT, FF, SP, NBSP, ZWNBSP and the Unicode category Zs; LF, CR,
  LS, PS). All of them are single code units.
\<close>

definition isWhiteSpace :: "jschar \<Rightarrow> bool" where
  "isWhiteSpace c \<longleftrightarrow>
     c = 0x09 \<or> c = 0x0A \<or> c = 0x0B \<or> c = 0x0C \<or> c = 0x0D \<or> c = 0x20 \<or> c = 0xA0 \<or>
     c = 0x1680 \<or> (0x2000 \<le> c \<and> c \<le> 0x200A) \<or> c = 0x2028 \<or> c = 0x2029 \<or>
     c = 0x202F \<or> c = 0x205F \<or> c = 0x3000 \<or> c = 0xFEFF"

definition trim :: "jsstring \<Rightarrow> jsstring" where
  "trim s = rev (dropWhile isWhiteSpace (rev (dropWhile isWhiteSpace s)))"

text \<open>\<open>s.includes(pat)\<close>: \<open>pat\<close> occurs in \<open>s\<close> as a contiguous run.\<close>

definition js_includes :: "jsstring \<Rightarrow> jsstring \<Rightarrow> bool" where
  "js_includes s pat = sublist pat s"

text \<open>The regular expression class \<open>\w\<close> (no \<open>i\<close> or \<open>u\<close> flag): \<open>[A-Za-z0-9_]\<close>.\<close>

definition isWordChar :: "jschar \<Rightarrow> bool" where
  "isWordChar c \<longleftrightarrow>
     (0x30 \<le> c \<and> c \<le> 0x39) \<or> (0x41 \<le> c \<and> c \<le> 0x5A) \<or> c = 0x5F \<or> (0x61 \<le> c \<and> c \<le> 0x7A)"

section \<open>formatResponse\<close>

record CodeResponse =
  code :: jsstring

text \<open>
  \<open>rawText.match(/```[\w]*\n?([\s\S]*?)```/)\<close> is modelled as the backtracking matcher
  of ECMAScript, one function per quantifier of the pattern. Each returns the capture
  group 1 of the first successful alternative, or \<open>None\<close> when every alternative fails.

  \<open>lazyBody\<close> is \<open>([\s\S]*?)```\<close>: the lazy star first tries to end the group here
  (the closing marker must follow) and takes one more code unit only when that fails.
\<close>

fun lazyBody :: "jsstring \<Rightarrow> jsstring option" where
  "lazyBody [] = None"
| "lazyBody (c # cs) =
     (if prefix fence (c # cs) then Some []
      else map_option ((#) c) (lazyBody cs))"

text \<open>
  \<open>optNewline\<close> is \<open>\n?\<close> followed by the rest of the pattern: greedy, so the newline is
  taken first when there is one, and given back when the rest then fails.
\<close>

fun optNewline :: "jsstring \<Rightarrow> jsstring option" where
  "optNewline [] = lazyBody []"
| "optNewline (c # cs) =
     (if c = LF then
        (case lazyBody cs of Some g \<Rightarrow> Some g | None \<Rightarrow> lazyBody (c # cs))
      else lazyBody (c # cs))"

text \<open>
  \<open>wordStar\<close> is \<open>[\w]*\<close> followed by the rest of the pattern: greedy, so one more word
  character is taken first, and given back when the rest then fails.
\<close>

fun wordStar :: "jsstring \<Rightarrow> jsstring option" where
  "wordStar [] = optNewline []"
| "wordStar (c # cs) =
     (if isWordChar c then
        (case wordStar cs of Some g \<Rightarrow> Some g | None \<Rightarrow> optNewline (c # cs))
      else optNewline (c # cs))"

text \<open>The whole pattern, anchored at the start of the given string.\<close>

definition matchHere :: "jsstring \<Rightarrow> jsstring option" where
  "matchHere s = (if prefix fence s then wordStar (drop 3 s) else None)"

text \<open>
  \<open>String.prototype.match\<close> with a non-global expression: the match at the leftmost
  start position that has one. The result is \<open>match[1]\<close>; \<open>None\<close> is \<open>match === null\<close>.
\<close>

fun codeBlockRegex_match :: "jsstring \<Rightarrow> jsstring option" where
  "codeBlockRegex_match [] = matchHere []"
| "codeBlockRegex_match (c # cs) =
     (case matchHere (c # cs) of Some g \<Rightarrow> Some g | None \<Rightarrow> codeBlockRegex_match cs)"

text \<open>
  \<open>rawText.replace(/```/g, '')\<close>: every match of the marker, found left to right
  without overlap, is deleted.
\<close>

fun replace_fences :: "jsstring \<Rightarrow> jsstring" where
  "replace_fences [] = []"
| "replace_fences (c # cs) =
     (if prefix fence (c # cs) then replace_fences (drop 2 cs)
      else c # replace_fences cs)"

text \<open>
  \<open>if (match && match[1])\<close>: the first branch needs a match whose group 1 is a
  non-empty string (the empty string is falsy).
\<close>

definition formatResponse :: "jsstring \<Rightarrow> CodeResponse" where
  "formatResponse rawText =
     (case codeBlockRegex_match rawText of
        Some g \<Rightarrow>
          if g \<noteq> [] then \<lparr>code = trim g\<rparr>
          else \<lparr>code = trim (replace_fences rawText)\<rparr>
      | None \<Rightarrow> \<lparr>code = trim (replace_fences rawText)\<rparr>)"

section \<open>Credential pool\<close>

text \<open>
  \<open>a || b\<close> where \<open>a\<close> is a string or \<open>undefined\<close> (\<open>None\<close>) and \<open>b\<close> is a string:
  \<open>undefined\<close> and the empty string are falsy.
\<close>

definition or_else :: "jsstring option \<Rightarrow> jsstring \<Rightarrow> jsstring" where
  "or_else a b = (case a of None \<Rightarrow> b | Some s \<Rightarrow> if s = [] then b else s)"

text \<open>\<open>process.env.GEMINI_API_KEYS || process.env.GEMINI_API_KEY || ""\<close>\<close>

definition envKeys :: "jsstring option \<Rightarrow> jsstring option \<Rightarrow> jsstring" where
  "envKeys GEMINI_API_KEYS GEMINI_API_KEY = or_else GEMINI_API_KEYS (or_else GEMINI_API_KEY [])"

text \<open>\<open>s.split(d)\<close> for a one-character separator: the empty string gives \<open>[""]\<close>.\<close>

fun js_split :: "jschar \<Rightarrow> jsstring \<Rightarrow> jsstring list" where
  "js_split d [] = [[]]"
| "js_split d (c # cs) =
     (if c = d then [] # js_split d cs
      else (case js_split d cs of [] \<Rightarrow> [[c]] | w # ws \<Rightarrow> (c # w) # ws))"

text \<open>\<open>envKeys.split(',').map(k => k.trim()).filter(k => k)\<close>\<close>

definition apiKeys_of :: "jsstring \<Rightarrow> jsstring list" where
  "apiKeys_of env = filter (\<lambda>k. k \<noteq> []) (map trim (js_split 0x2C env))"

text \<open>
  \<open>currentKeyIndex\<close> is a JavaScript number. The only values it takes are the
  non-negative integers below the pool size and, after \<open>% 0\<close> on an empty pool, NaN.
\<close>

datatype js_number = Num nat | NaN

text \<open>\<open>(currentKeyIndex + 1) % apiKeys.length\<close>\<close>

definition next_index :: "js_number \<Rightarrow> nat \<Rightarrow> js_number" where
  "next_index i len =
     (case i of NaN \<Rightarrow> NaN | Num n \<Rightarrow> if len = 0 then NaN else Num ((n + 1) mod len))"

text \<open>\<open>apiKeys[index]\<close>: \<open>undefined\<close> (\<open>None\<close>) out of range and at NaN.\<close>

definition key_at :: "jsstring list \<Rightarrow> js_number \<Rightarrow> jsstring option" where
  "key_at apiKeys index =
     (case index of NaN \<Rightarrow> None
      | Num n \<Rightarrow> if n < length apiKeys then Some (apiKeys ! n) else None)"

text \<open>
  The mutable state of the process is the cursor \<open>currentKeyIndex\<close>. Two logs record
  the effects on the backend: \<open>sessions\<close> holds the key of every chat session started
  (\<open>model.startChat\<close>), \<open>sends\<close> the key of the session of every \<open>sendMessage\<close> call,
  both oldest first. The logger and the one-second pause before a retry after a 503
  are not part of the state.
\<close>

record server =
  currentKeyIndex :: js_number
  sessions :: "jsstring list"
  sends :: "jsstring list"

definition init_server :: server where
  "init_server = \<lparr>currentKeyIndex = Num 0, sessions = [], sends = []\<rparr>"

text \<open>A thrown value: an object whose \<open>message\<close> is a string or missing.\<close>

datatype js_error = Error (message: "jsstring option")

text \<open>
  \<open>getModel\<close> returns a model bound to the key it picked; the model is represented by
  that key. The cursor is advanced before the key is checked, so it is advanced also
  when the function throws.
\<close>

definition getModel :: "jsstring list \<Rightarrow> server \<Rightarrow> (js_error + jsstring) \<times> server" where
  "getModel apiKeys st =
     (let index = currentKeyIndex st;
          st' = st\<lparr>currentKeyIndex := next_index (currentKeyIndex st) (length apiKeys)\<rparr>
      in case key_at apiKeys index of
           None \<Rightarrow> (Inl (Error (Some (js ''No available API keys.''))), st')
         | Some key \<Rightarrow>
             if key = [] then (Inl (Error (Some (js ''No available API keys.''))), st')
             else (Inr key, st'))"

text \<open>A chat session is represented by the key of its model.\<close>

definition createChatSession :: "jsstring list \<Rightarrow> server \<Rightarrow> (js_error + jsstring) \<times> server" where
  "createChatSession apiKeys st =
     (case getModel apiKeys st of
        (Inl e, st') \<Rightarrow> (Inl e, st')
      | (Inr model, st') \<Rightarrow> (Inr model, st'\<lparr>sessions := sessions st' @ [model]\<rparr>))"

text \<open>The given number of consecutive \<open>getModel\<close> calls, with the result of each.\<close>

fun getModel_calls :: "nat \<Rightarrow> jsstring list \<Rightarrow> server \<Rightarrow> (js_error + jsstring) list \<times> server" where
  "getModel_calls 0 apiKeys st = ([], st)"
| "getModel_calls (Suc n) apiKeys st =
     (case getModel apiKeys st of
        (r, st') \<Rightarrow> (case getModel_calls n apiKeys st' of (rs, st'') \<Rightarrow> (r # rs, st'')))"

definition cursor_valid :: "jsstring list \<Rightarrow> server \<Rightarrow> bool" where
  "cursor_valid apiKeys st =
     (case currentKeyIndex st of Num n \<Rightarrow> n < length apiKeys | NaN \<Rightarrow> False)"

section \<open>Classification of backend failures\<close>

text \<open>
  \<open>String.prototype.toLowerCase\<close> on the ASCII range. Code units outside \<open>A-Z\<close> are
  left as they are: the Unicode lower-case mapping of a character outside ASCII never
  yields one of the letters of \<open>quota\<close>, the only text searched in a lower-cased string.
\<close>

definition toLowerUnit :: "jschar \<Rightarrow> jschar" where
  "toLowerUnit c = (if 0x41 \<le> c \<and> c \<le> 0x5A then c + 0x20 else c)"

definition toLowerCase :: "jsstring \<Rightarrow> jsstring" where
  "toLowerCase s = map toLowerUnit s"

definition isQuotaError :: "jsstring \<Rightarrow> bool" where
  "isQuotaError errorMsg \<longleftrightarrow>
     js_includes errorMsg (js ''429'') \<or> js_includes (toLowerCase errorMsg) (js ''quota'')"

definition isServiceOverloaded :: "jsstring \<Rightarrow> bool" where
  "isServiceOverloaded errorMsg \<longleftrightarrow>
     js_includes errorMsg (js ''503'') \<or> js_includes errorMsg (js ''Overloaded'')"

text \<open>
  The log type of each branch of the catch block: \<open>QUOTA_LIMIT\<close> and
  \<open>SERVICE_OVERLOADED\<close> are retried (the spec's QuotaExceeded and ServiceOverloaded),
  \<open>API_ATTEMPT_ERROR\<close> is rethrown (the spec's FatalFailure).
\<close>

datatype failure_type = QUOTA_LIMIT | SERVICE_OVERLOADED | API_ATTEMPT_ERROR

definition classify :: "jsstring \<Rightarrow> failure_type" where
  "classify errorMsg =
     (if isQuotaError errorMsg \<or> isServiceOverloaded errorMsg then
        (if isQuotaError errorMsg then QUOTA_LIMIT else SERVICE_OVERLOADED)
      else API_ATTEMPT_ERROR)"

section \<open>The request handler\<close>

datatype json_body =
    CodeJson CodeResponse
  | ErrorJson (error: bool) (message: jsstring) (details: "jsstring option")

record http_response =
  status :: nat
  json :: json_body

text \<open>
  What the backend answers to \<open>sendMessage(query)\<close> at the given attempt on the session
  of the given key: the text of the response, or a thrown value.
\<close>

type_synonym backend = "nat \<Rightarrow> jsstring \<Rightarrow> jsstring \<Rightarrow> js_error + jsstring"

text \<open>A non-negative integer in a template literal: its decimal digits.\<close>

function decimal :: "nat \<Rightarrow> jsstring" where
  "decimal n =
     (if n < 10 then [0x30 + of_nat n]
      else decimal (n div 10) @ [0x30 + of_nat (n mod 10)])"
  by pat_completeness auto
termination
  by (relation "measure id") auto

declare decimal.simps [simp del]

text \<open>
  \<open>new Error(`Failed after ${MAX_RETRIES} attempts. Last error: ${lastError ?
  lastError.message : 'Unknown'}`)\<close>; a missing message prints as \<open>undefined\<close>.
\<close>

definition exhausted :: "nat \<Rightarrow> js_error option \<Rightarrow> js_error" where
  "exhausted MAX_RETRIES lastError =
     Error (Some (js ''Failed after '' @ decimal MAX_RETRIES @ js '' attempts. Last error: '' @
       (case lastError of
          None \<Rightarrow> js ''Unknown''
        | Some e \<Rightarrow> (case js_error.message e of None \<Rightarrow> js ''undefined'' | Some m \<Rightarrow> m))))"

text \<open>
  The retry loop, \<open>for (let attempt = 0; attempt < MAX_RETRIES; attempt++)\<close>, from the
  given attempt on. \<open>Inl\<close> is a value thrown out of the loop, to the handler's outer catch.
\<close>

function retryLoop ::
  "jsstring list \<Rightarrow> backend \<Rightarrow> jsstring \<Rightarrow> nat \<Rightarrow> nat \<Rightarrow> jsstring \<Rightarrow> js_error option \<Rightarrow> server
   \<Rightarrow> (js_error + http_response) \<times> server" where
  "retryLoop apiKeys backend query MAX_RETRIES attempt chatSession lastError st =
     (if attempt < MAX_RETRIES then
        (let st1 = st\<lparr>sends := sends st @ [chatSession]\<rparr> in
         case backend attempt chatSession query of
           Inr text \<Rightarrow> (Inr \<lparr>status = 200, json = CodeJson (formatResponse text)\<rparr>, st1)
         | Inl err \<Rightarrow>
             (let errorMsg = or_else (js_error.message err) [] in
              if isQuotaError errorMsg \<or> isServiceOverloaded errorMsg then
                (case createChatSession apiKeys st1 of
                   (Inl e, st2) \<Rightarrow> (Inl e, st2)
                 | (Inr chatSession', st2) \<Rightarrow>
                     retryLoop apiKeys backend query MAX_RETRIES (attempt + 1) chatSession'
                       (Some err) st2)
              else (Inl err, st1)))
      else (Inl (exhausted MAX_RETRIES lastError), st))"
  by pat_completeness auto
termination
  by (relation "measure (\<lambda>(apiKeys, backend, query, MAX_RETRIES, attempt, rest). MAX_RETRIES - attempt)")
     auto

declare retryLoop.simps [simp del]

definition bad_request :: http_response where
  "bad_request = \<lparr>status = 400, json = ErrorJson True (js ''Missing 'query' parameter.'') None\<rparr>"

definition config_error :: http_response where
  "config_error = \<lparr>status = 500, json = ErrorJson True (js ''Server config error: No API keys.'') None\<rparr>"

text \<open>The outer catch: \<open>details\<close> is the message of the thrown value.\<close>

definition internal_error :: "js_error \<Rightarrow> http_response" where
  "internal_error criticalError =
     \<lparr>status = 500,
      json = ErrorJson True (js ''Internal Server Error'') (js_error.message criticalError)\<rparr>"

text \<open>
  \<open>app.get('/')\<close>. The query parameter is a string or missing (\<open>None\<close>); \<open>!query\<close>
  holds when it is missing or empty.
\<close>

definition handler :: "jsstring list \<Rightarrow> backend \<Rightarrow> jsstring option \<Rightarrow> server \<Rightarrow> http_response \<times> server" where
  "handler apiKeys backend query st =
     (case query of
        None \<Rightarrow> (bad_request, st)
      | Some q \<Rightarrow>
          if q = [] then (bad_request, st)
          else if length apiKeys = 0 then (config_error, st)
          else
            (case createChatSession apiKeys st of
               (Inl criticalError, st1) \<Rightarrow> (internal_error criticalError, st1)
             | (Inr chatSession, st1) \<Rightarrow>
                 (case retryLoop apiKeys backend q (length apiKeys * 2) 0 chatSession None st1 of
                    (Inl criticalError, st2) \<Rightarrow> (internal_error criticalError, st2)
                  | (Inr res, st2) \<Rightarrow> (res, st2))))"

text \<open>Requests served one after the other, each with its own backend behaviour.\<close>

fun serve :: "jsstring list \<Rightarrow> (backend \<times> jsstring option) list \<Rightarrow> server \<Rightarrow> http_response list \<times> server" where
  "serve apiKeys [] st = ([], st)"
| "serve apiKeys ((backend, query) # reqs) st =
     (case handler apiKeys backend query st of
        (res, st') \<Rightarrow> (case serve apiKeys reqs st' of (rs, st'') \<Rightarrow> (res # rs, st'')))"

section \<open>The specification's wording\<close>

text \<open>
  The definitions of this section follow the words of the specification, not the code;
  the theorems below compare them with the code.

  A fenced code block: the opening marker, optionally followed by a language tag and a
  newline, the interior, and the next marker. \<open>spec_first_block\<close> is the interior of
  the first fenced block of the text.
\<close>

definition skipTag :: "jsstring \<Rightarrow> jsstring" where
  "skipTag s = dropWhile isWordChar s"

definition skipNewline :: "jsstring \<Rightarrow> jsstring" where
  "skipNewline s = (case s of [] \<Rightarrow> [] | c # cs \<Rightarrow> if c = LF then cs else c # cs)"

definition upto_next_marker :: "jsstring \<Rightarrow> jsstring option" where
  "upto_next_marker s =
     map_option (\<lambda>n. take n s) (find (\<lambda>n. prefix fence (drop n s)) [0..<length s])"

definition block_interior :: "jsstring \<Rightarrow> jsstring option" where
  "block_interior s =
     (if prefix fence s then upto_next_marker (skipNewline (skipTag (drop 3 s))) else None)"

definition spec_first_block :: "jsstring \<Rightarrow> jsstring option" where
  "spec_first_block s =
     (case find (\<lambda>i. block_interior (drop i s) \<noteq> None) [0..<length s] of
        None \<Rightarrow> None
      | Some i \<Rightarrow> block_interior (drop i s))"

text \<open>
  \<open>normalize\<close> as the specification states it: the trimmed interior of the first fenced
  block when there is one, otherwise the text without its markers, trimmed.
\<close>

definition spec_normalize :: "jsstring \<Rightarrow> CodeResponse" where
  "spec_normalize rawText =
     (case spec_first_block rawText of
        Some interior \<Rightarrow> \<lparr>code = trim interior\<rparr>
      | None \<Rightarrow> \<lparr>code = trim (replace_fences rawText)\<rparr>)"

text \<open>No white space at either end.\<close>

definition noOuterWhiteSpace :: "jsstring \<Rightarrow> bool" where
  "noOuterWhiteSpace s =
     (case s of [] \<Rightarrow> True | c # cs \<Rightarrow> \<not> isWhiteSpace c \<and> \<not> isWhiteSpace (last s))"

text \<open>
  \<open>s\<close> contains \<open>pat\<close> case-insensitively: at some position of \<open>s\<close>, each code unit
  equals the one of \<open>pat\<close> up to the case of an ASCII letter.
\<close>

definition same_letter :: "jschar \<Rightarrow> jschar \<Rightarrow> bool" where
  "same_letter a b \<longleftrightarrow> toLowerUnit a = toLowerUnit b"

fun ci_prefix :: "jsstring \<Rightarrow> jsstring \<Rightarrow> bool" where
  "ci_prefix [] s = True"
| "ci_prefix (p # ps) [] = False"
| "ci_prefix (p # ps) (c # cs) = (same_letter p c \<and> ci_prefix ps cs)"

fun contains_ignoring_case :: "jsstring \<Rightarrow> jsstring \<Rightarrow> bool" where
  "contains_ignoring_case [] pat = ci_prefix pat []"
| "contains_ignoring_case (c # cs) pat =
     (ci_prefix pat (c # cs) \<or> contains_ignoring_case cs pat)"

text \<open>
  The classification of an error message as the specification states it, with the
  code's names for the three classes.
\<close>

definition spec_classify :: "jsstring \<Rightarrow> failure_type" where
  "spec_classify errorMsg =
     (if js_includes errorMsg (js ''429'') \<or> contains_ignoring_case errorMsg (js ''quota'')
      then QUOTA_LIMIT
      else if js_includes errorMsg (js ''503'') \<or> js_includes errorMsg (js ''Overloaded'')
      then SERVICE_OVERLOADED
      else API_ATTEMPT_ERROR)"

text \<open>A failure that the loop retries.\<close>

definition retryable :: "js_error \<Rightarrow> bool" where
  "retryable err \<longleftrightarrow> classify (or_else (js_error.message err) []) \<noteq> API_ATTEMPT_ERROR"

text \<open>The key at the cursor position \<open>c\<close> moved on by \<open>i\<close> allocations.\<close>

definition round_robin :: "jsstring list \<Rightarrow> nat \<Rightarrow> nat \<Rightarrow> jsstring" where
  "round_robin apiKeys c i = apiKeys ! ((c + i) mod length apiKeys)"

text \<open>A backend that fails every attempt with the same thrown value.\<close>

definition always_failing :: "js_error \<Rightarrow> backend" where
  "always_failing err = (\<lambda>attempt key query. Inl err)"

text \<open>The number of backticks a string starts with.\<close>

definition leading_backticks :: "jsstring \<Rightarrow> nat" where
  "leading_backticks s = length (takeWhile (\<lambda>c. c = backtick) s)"

text \<open>The state after \<open>j\<close> failed attempts that were all retried.\<close>

definition after_retries :: "jsstring list \<Rightarrow> nat \<Rightarrow> nat \<Rightarrow> server \<Rightarrow> server" where
  "after_retries apiKeys c j st =
     st\<lparr>currentKeyIndex := Num ((c + j + 1) mod length apiKeys),
        sessions := sessions st @ map (round_robin apiKeys c) [1..<j + 1],
        sends := sends st @ map (round_robin apiKeys c) [0..<j]\<rparr>"

text \<open>Sample inputs.\<close>

definition sample_block :: jsstring where
  "sample_block = js ''```js'' @ [LF] @ js ''console.log(1)'' @ [LF] @ js ''```''"

definition empty_block_then_text :: jsstring where
  "empty_block_then_text = js ''``````x''"

definition padded_text :: jsstring where
  "padded_text = js ''  no fences here ''"

definition three_keys :: "jsstring list" where
  "three_keys = [js ''key1'', js ''key2'', js ''key3'']"

definition two_keys :: "jsstring list" where
  "two_keys = [js ''key1'', js ''key2'']"

definition quota_error :: js_error where
  "quota_error = Error (Some (js ''429 Too Many Requests''))"

definition fatal_error :: js_error where
  "fatal_error = Error (Some (js ''400 Bad Request: API key not valid''))"

section \<open>The regular expression finds the first fenced block\<close>

lemma find_map_comp: "find P (map f xs) = map_option f (find (P \<circ> f) xs)"
  by (induction xs) auto

lemma find_upt_Suc:
  "find P [0..<Suc n] = (if P 0 then Some 0 else map_option Suc (find (P \<circ> Suc) [0..<n]))"
proof -
  have "[0..<Suc n] = 0 # [Suc 0..<Suc n]"
    by (rule upt_conv_Cons) simp
  also have "[Suc 0..<Suc n] = map Suc [0..<n]"
    by (rule map_Suc_upt [symmetric])
  finally show ?thesis
    by (simp add: find_map_comp del: upt_Suc)
qed

lemma not_backtick_not_fence: "c \<noteq> backtick \<Longrightarrow> \<not> prefix fence (c # cs)"
  by (simp add: fence_def)

lemma lazyBody_skip: "c \<noteq> backtick \<Longrightarrow> lazyBody (c # cs) = map_option ((#) c) (lazyBody cs)"
  by (simp add: not_backtick_not_fence)

lemma LF_not_backtick: "LF \<noteq> backtick"
  by (simp add: LF_def backtick_def)

lemma isWordChar_not_backtick: "isWordChar c \<Longrightarrow> c \<noteq> backtick"
  by (auto simp: isWordChar_def backtick_def)

text \<open>Giving the newline back never helps: the marker does not start with a newline.\<close>

lemma optNewline_eq: "optNewline s = lazyBody (skipNewline s)"
proof (cases s)
  case Nil
  then show ?thesis by (simp add: skipNewline_def)
next
  case (Cons c cs)
  show ?thesis
  proof (cases "c = LF")
    case True
    with Cons show ?thesis
      using lazyBody_skip [OF LF_not_backtick, of cs]
      by (simp add: skipNewline_def del: lazyBody.simps split: option.splits)
  next
    case False
    with Cons show ?thesis by (simp add: skipNewline_def)
  qed
qed

lemma lazyBody_skipNewline_None: "lazyBody (skipNewline s) = None \<Longrightarrow> lazyBody s = None"
proof (cases s)
  case Nil
  then show ?thesis by simp
next
  case (Cons c cs)
  assume a: "lazyBody (skipNewline s) = None"
  show ?thesis
  proof (cases "c = LF")
    case True
    with Cons a have "lazyBody cs = None" by (simp add: skipNewline_def)
    with True Cons show ?thesis
      using lazyBody_skip [OF LF_not_backtick, of cs] by simp
  next
    case False
    with Cons a show ?thesis by (simp add: skipNewline_def)
  qed
qed

lemma lazyBody_skipTag_None: "lazyBody (skipTag s) = None \<Longrightarrow> lazyBody s = None"
proof (induction s)
  case Nil
  then show ?case by simp
next
  case (Cons c cs)
  show ?case
  proof (cases "isWordChar c")
    case True
    with Cons have "lazyBody cs = None" by (simp add: skipTag_def)
    then show ?thesis
      using lazyBody_skip [OF isWordChar_not_backtick [OF True], of cs] by simp
  next
    case False
    with Cons.prems show ?thesis by (simp add: skipTag_def)
  qed
qed

text \<open>Giving word characters back never helps either.\<close>

lemma wordStar_eq: "wordStar s = lazyBody (skipNewline (skipTag s))"
proof (induction s)
  case Nil
  then show ?case by (simp add: skipTag_def skipNewline_def)
next
  case (Cons c cs)
  show ?case
  proof (cases "isWordChar c")
    case False
    then show ?thesis by (simp add: skipTag_def optNewline_eq)
  next
    case True
    have tag: "skipTag (c # cs) = skipTag cs"
      using True by (simp add: skipTag_def)
    have step: "wordStar (c # cs) =
        (case wordStar cs of Some g \<Rightarrow> Some g | None \<Rightarrow> optNewline (c # cs))"
      using True by simp
    show ?thesis
    proof (cases "wordStar cs")
      case (Some g)
      from Cons.IH Some have "lazyBody (skipNewline (skipTag cs)) = Some g"
        by (rule trans [OF sym])
      then show ?thesis
        by (simp only: step Some tag option.case)
    next
      case None
      from Cons.IH None have rest: "lazyBody (skipNewline (skipTag cs)) = None"
        by (rule trans [OF sym])
      have "lazyBody cs = None"
        by (rule lazyBody_skipTag_None [OF lazyBody_skipNewline_None [OF rest]])
      then have "lazyBody (c # cs) = None"
        using lazyBody_skip [OF isWordChar_not_backtick [OF True], of cs] by simp
      moreover have "c \<noteq> LF"
        using True by (auto simp: isWordChar_def LF_def)
      ultimately have "optNewline (c # cs) = None"
        by (simp del: lazyBody.simps)
      then show ?thesis
        by (simp only: step None tag rest option.case)
    qed
  qed
qed

lemma lazyBody_eq: "lazyBody s = upto_next_marker s"
proof (induction s)
  case Nil
  then show ?case by (simp add: upto_next_marker_def)
next
  case (Cons c cs)
  show ?case
  proof (cases "prefix fence (c # cs)")
    case True
    then show ?thesis
      by (simp add: upto_next_marker_def find_upt_Suc del: upt_Suc)
  next
    case False
    then show ?thesis
      using Cons.IH
      by (simp add: upto_next_marker_def find_upt_Suc option.map_comp comp_def del: upt_Suc)
  qed
qed

lemma matchHere_eq: "matchHere s = block_interior s"
  by (simp add: matchHere_def block_interior_def wordStar_eq lazyBody_eq)

lemma codeBlockRegex_match_eq: "codeBlockRegex_match s = spec_first_block s"
proof (induction s)
  case Nil
  then show ?case by (simp add: spec_first_block_def matchHere_def fence_def)
next
  case (Cons c cs)
  show ?case
  proof (cases "matchHere (c # cs)")
    case (Some g)
    then show ?thesis
      by (simp add: spec_first_block_def find_upt_Suc matchHere_eq del: upt_Suc)
  next
    case None
    then show ?thesis
      using Cons.IH
      by (simp add: spec_first_block_def find_upt_Suc matchHere_eq comp_def del: upt_Suc
          split: option.splits)
  qed
qed

section \<open>The result of formatResponse is clean\<close>

lemma fence_not_Nil: "fence \<noteq> []"
  by (simp add: fence_def)

lemma lazyBody_prefix: "lazyBody s = Some g \<Longrightarrow> prefix (g @ fence) s"
proof (induction s arbitrary: g)
  case Nil
  then show ?case by simp
next
  case (Cons c cs)
  show ?case
  proof (cases "prefix fence (c # cs)")
    case True
    with Cons.prems show ?thesis by simp
  next
    case False
    with Cons.prems obtain g' where g': "lazyBody cs = Some g'" "g = c # g'"
      by auto
    from Cons.IH [OF g'(1)] g'(2) show ?thesis by simp
  qed
qed

lemma lazyBody_no_fence: "lazyBody s = Some g \<Longrightarrow> \<not> sublist fence g"
proof (induction s arbitrary: g)
  case Nil
  then show ?case by simp
next
  case (Cons c cs)
  show ?case
  proof (cases "prefix fence (c # cs)")
    case True
    with Cons.prems show ?thesis by (simp add: fence_not_Nil)
  next
    case False
    with Cons.prems obtain g' where g': "lazyBody cs = Some g'" "g = c # g'"
      by auto
    have "\<not> prefix fence (c # g')"
    proof
      assume "prefix fence (c # g')"
      moreover have "prefix (c # g') (c # cs)"
        using lazyBody_prefix [OF g'(1)] by (auto simp: prefix_def)
      ultimately have "prefix fence (c # cs)" by (rule prefix_order.order_trans)
      with False show False by simp
    qed
    with Cons.IH [OF g'(1)] g'(2) show ?thesis
      by (simp add: sublist_Cons_right)
  qed
qed

lemma codeBlockRegex_match_no_fence: "codeBlockRegex_match s = Some g \<Longrightarrow> \<not> sublist fence g"
  by (induction s)
     (auto simp: matchHere_def wordStar_eq fence_def dest: lazyBody_no_fence
           split: option.splits if_splits)

lemma sublist_trim: "sublist (trim s) s"
proof -
  have "suffix (dropWhile isWhiteSpace s) s"
    by (rule suffix_dropWhile)
  moreover have "prefix (trim s) (dropWhile isWhiteSpace s)"
  proof -
    have "suffix (dropWhile isWhiteSpace (rev (dropWhile isWhiteSpace s))) (rev (dropWhile isWhiteSpace s))"
      by (rule suffix_dropWhile)
    then show ?thesis
      by (simp add: trim_def suffix_to_prefix)
  qed
  ultimately show ?thesis
    by (meson prefix_imp_sublist suffix_imp_sublist sublist_order.order_trans)
qed

lemma trim_no_fence: "\<not> sublist fence s \<Longrightarrow> \<not> sublist fence (trim s)"
  using sublist_order.order_trans [OF _ sublist_trim] by blast


lemma leading_backticks_Cons:
  "leading_backticks (c # cs) = (if c = backtick then Suc (leading_backticks cs) else 0)"
  by (simp add: leading_backticks_def)

lemma leading_backticks_Nil: "leading_backticks [] = 0"
  by (simp add: leading_backticks_def)

lemma prefix_fence_leading: "prefix fence s \<longleftrightarrow> 3 \<le> leading_backticks s"
proof (cases s)
  case Nil
  then show ?thesis by (simp add: fence_def leading_backticks_Nil)
next
  case s1: (Cons a s')
  show ?thesis
  proof (cases s')
    case Nil
    with s1 show ?thesis by (simp add: fence_def leading_backticks_Cons leading_backticks_Nil)
  next
    case s2: (Cons b s'')
    show ?thesis
    proof (cases s'')
      case Nil
      with s1 s2 show ?thesis
        by (simp add: fence_def leading_backticks_Cons leading_backticks_Nil)
    next
      case (Cons c rest)
      with s1 s2 show ?thesis
        by (auto simp: fence_def leading_backticks_Cons)
    qed
  qed
qed

lemma leading_backticks_replace:
  "leading_backticks (replace_fences s) = leading_backticks s mod 3"
proof (induction s rule: replace_fences.induct)
  case 1
  then show ?case by (simp add: leading_backticks_Nil)
next
  case (2 c cs)
  show ?case
  proof (cases "prefix fence (c # cs)")
    case True
    then obtain rest where rest: "c = backtick" "cs = backtick # backtick # rest"
      by (auto simp: fence_def prefix_def)
    with True 2 show ?thesis
      by (simp add: leading_backticks_Cons)
  next
    case False
    then have small: "leading_backticks (c # cs) < 3"
      by (simp add: prefix_fence_leading)
    from False 2 have IH: "leading_backticks (replace_fences cs) = leading_backticks cs mod 3"
      by simp
    from False have eq: "replace_fences (c # cs) = c # replace_fences cs"
      by simp
    show ?thesis
      using small IH unfolding eq
      by (auto simp: leading_backticks_Cons split: if_splits)
  qed
qed

lemma replace_fences_no_fence: "\<not> sublist fence (replace_fences s)"
proof (induction s rule: replace_fences.induct)
  case 1
  then show ?case by (simp add: fence_not_Nil)
next
  case (2 c cs)
  show ?case
  proof (cases "prefix fence (c # cs)")
    case True
    with 2 show ?thesis by simp
  next
    case False
    have "\<not> prefix fence (replace_fences (c # cs))"
      by (simp add: prefix_fence_leading leading_backticks_replace del: replace_fences.simps)
    moreover from False 2 have "\<not> sublist fence (replace_fences cs)"
      by simp
    ultimately show ?thesis
      using False by (simp add: sublist_Cons_right)
  qed
qed

lemma no_fence_match_None: "\<not> sublist fence s \<Longrightarrow> codeBlockRegex_match s = None"
proof (induction s)
  case Nil
  then show ?case by (simp add: matchHere_def fence_def)
next
  case (Cons c cs)
  then have "\<not> prefix fence (c # cs)" "\<not> sublist fence cs"
    by (auto simp: sublist_Cons_right)
  with Cons.IH show ?case
    by (simp add: matchHere_def)
qed

lemma no_fence_replace_id: "\<not> sublist fence s \<Longrightarrow> replace_fences s = s"
proof (induction s)
  case Nil
  then show ?case by simp
next
  case (Cons c cs)
  then have "\<not> prefix fence (c # cs)" "\<not> sublist fence cs"
    by (auto simp: sublist_Cons_right)
  with Cons.IH show ?case by simp
qed

lemma dropWhile_id: "xs = [] \<or> \<not> P (hd xs) \<Longrightarrow> dropWhile P xs = xs"
  by (cases xs) auto

lemma noOuterWhiteSpace_iff:
  "noOuterWhiteSpace s \<longleftrightarrow> s = [] \<or> (\<not> isWhiteSpace (hd s) \<and> \<not> isWhiteSpace (last s))"
  by (cases s) (simp_all add: noOuterWhiteSpace_def del: last.simps)

lemma trim_id: "noOuterWhiteSpace s \<Longrightarrow> trim s = s"
proof -
  assume "noOuterWhiteSpace s"
  then have ends: "s = [] \<or> (\<not> isWhiteSpace (hd s) \<and> \<not> isWhiteSpace (last s))"
    by (simp only: noOuterWhiteSpace_iff)
  then have "dropWhile isWhiteSpace s = s"
    by (intro dropWhile_id) blast
  moreover have "dropWhile isWhiteSpace (rev s) = rev s"
  proof (rule dropWhile_id)
    from ends show "rev s = [] \<or> \<not> isWhiteSpace (hd (rev s))"
      by (auto simp only: hd_rev rev_is_Nil_conv)
  qed
  ultimately show ?thesis by (simp add: trim_def)
qed

lemma noOuterWhiteSpace_trim: "noOuterWhiteSpace (trim s)"
proof -
  define t where "t = dropWhile isWhiteSpace s"
  define u where "u = dropWhile isWhiteSpace (rev t)"
  have trim: "trim s = rev u"
    by (simp add: trim_def t_def u_def)
  show ?thesis
  proof (cases "u = []")
    case True
    with trim show ?thesis by (simp add: noOuterWhiteSpace_def)
  next
    case False
    then have hd_u: "\<not> isWhiteSpace (hd u)"
      unfolding u_def by (rule hd_dropWhile)
    from False have t_ne: "t \<noteq> []"
      by (auto simp: u_def)
    then have hd_t: "\<not> isWhiteSpace (hd t)"
      unfolding t_def by (rule hd_dropWhile)
    have "suffix u (rev t)"
      unfolding u_def by (rule suffix_dropWhile)
    then obtain p where p: "rev t = p @ u"
      by (auto simp: suffix_def)
    from p False have "last u = last (rev t)"
      by simp
    also have "\<dots> = hd t"
      by (simp only: last_rev)
    finally have last_u: "\<not> isWhiteSpace (last u)"
      using hd_t by simp
    have "hd (rev u) = last u" "last (rev u) = hd u"
      by (simp_all only: hd_rev last_rev)
    with hd_u last_u show ?thesis
      by (simp only: trim noOuterWhiteSpace_iff) simp
  qed
qed

lemma formatResponse_no_fence: "\<not> sublist fence (code (formatResponse rawText))"
  by (auto simp: formatResponse_def trim_no_fence replace_fences_no_fence
      dest: codeBlockRegex_match_no_fence split: option.splits)

lemma formatResponse_trimmed: "noOuterWhiteSpace (code (formatResponse rawText))"
  by (simp add: formatResponse_def noOuterWhiteSpace_trim split: option.splits)

lemma formatResponse_fixpoint:
  assumes "\<not> sublist fence y" "noOuterWhiteSpace y"
  shows "formatResponse y = \<lparr>code = y\<rparr>"
  using assms
  by (simp add: formatResponse_def no_fence_match_None no_fence_replace_id trim_id)

lemma formatResponse_idem: "formatResponse (code (formatResponse x)) = formatResponse x"
  using formatResponse_fixpoint [OF formatResponse_no_fence formatResponse_trimmed, of x]
  by simp

section \<open>The cursor\<close>

text \<open>The pool built from the environment holds no empty key.\<close>

lemma apiKeys_of_nonempty: "[] \<notin> set (apiKeys_of env)"
  by (simp add: apiKeys_of_def)

lemma getModel_at:
  assumes "currentKeyIndex st = Num c" "c < length apiKeys" "[] \<notin> set apiKeys"
  shows "getModel apiKeys st =
           (Inr (apiKeys ! c), st\<lparr>currentKeyIndex := Num (Suc c mod length apiKeys)\<rparr>)"
proof -
  have "apiKeys ! c \<in> set apiKeys"
    using assms(2) by simp
  with assms(3) have "apiKeys ! c \<noteq> []"
    by metis
  moreover have "length apiKeys \<noteq> 0"
    using assms(2) by auto
  ultimately show ?thesis
    using assms(1,2) by (simp add: getModel_def key_at_def next_index_def)
qed

lemma getModel_cursor:
  assumes "currentKeyIndex st = Num c" "c < length apiKeys"
  shows "currentKeyIndex (snd (getModel apiKeys st)) = Num (Suc c mod length apiKeys)"
  using assms by (auto simp: getModel_def key_at_def next_index_def Let_def)

lemma getModel_cursor_valid:
  "cursor_valid apiKeys st \<Longrightarrow> cursor_valid apiKeys (snd (getModel apiKeys st))"
  by (auto simp: cursor_valid_def getModel_def key_at_def next_index_def Let_def
      split: js_number.splits)

lemma createChatSession_cursor_valid:
  "cursor_valid apiKeys st \<Longrightarrow> cursor_valid apiKeys (snd (createChatSession apiKeys st))"
  using getModel_cursor_valid [of apiKeys st]
  by (auto simp: createChatSession_def cursor_valid_def split: prod.splits sum.splits)

lemma cursor_valid_sends [simp]:
  "cursor_valid apiKeys (st\<lparr>sends := xs\<rparr>) = cursor_valid apiKeys st"
  by (simp add: cursor_valid_def)

lemma retryLoop_cursor_valid:
  "cursor_valid apiKeys st \<Longrightarrow>
   cursor_valid apiKeys (snd (retryLoop apiKeys backend query MAX_RETRIES attempt chatSession lastError st))"
proof (induction apiKeys backend query MAX_RETRIES attempt chatSession lastError st
    rule: retryLoop.induct)
  case (1 apiKeys backend query MAX_RETRIES attempt chatSession lastError st)
  let ?st1 = "st\<lparr>sends := sends st @ [chatSession]\<rparr>"
  have v1: "cursor_valid apiKeys ?st1"
    using "1.prems" by simp
  show ?case
  proof (cases "attempt < MAX_RETRIES")
    case False
    with "1.prems" show ?thesis
      by (simp add: retryLoop.simps [of apiKeys backend query MAX_RETRIES attempt])
  next
    case True
    show ?thesis
    proof (cases "backend attempt chatSession query")
      case (Inr rawText)
      with True v1 show ?thesis
        by (simp add: retryLoop.simps [of apiKeys backend query MAX_RETRIES attempt])
    next
      case (Inl err)
      show ?thesis
      proof (cases "isQuotaError (or_else (js_error.message err) []) \<or>
                    isServiceOverloaded (or_else (js_error.message err) [])")
        case False
        with True Inl v1 show ?thesis
          by (simp add: retryLoop.simps [of apiKeys backend query MAX_RETRIES attempt])
      next
        case retry: True
        obtain r st2 where c: "createChatSession apiKeys ?st1 = (r, st2)"
          by (cases "createChatSession apiKeys ?st1")
        have v2: "cursor_valid apiKeys st2"
          using createChatSession_cursor_valid [OF v1] c by simp
        show ?thesis
        proof (cases r)
          case e: (Inl e)
          with True Inl retry c v2 show ?thesis
            by (simp add: retryLoop.simps [of apiKeys backend query MAX_RETRIES attempt])
        next
          case (Inr chat')
          have "cursor_valid apiKeys (snd (retryLoop apiKeys backend query MAX_RETRIES
                  (attempt + 1) chat' (Some err) st2))"
            using "1.IH" [OF True refl Inl refl retry _ _ v2] c Inr by simp
          with True Inl retry c Inr show ?thesis
            by (simp add: retryLoop.simps [of apiKeys backend query MAX_RETRIES attempt])
        qed
      qed
    qed
  qed
qed

lemma handler_cursor_valid:
  "cursor_valid apiKeys st \<Longrightarrow> cursor_valid apiKeys (snd (handler apiKeys backend query st))"
proof -
  assume v: "cursor_valid apiKeys st"
  show ?thesis
  proof (cases "createChatSession apiKeys st")
    case (Pair r st1)
    then have v1: "cursor_valid apiKeys st1"
      using createChatSession_cursor_valid [OF v] by simp
    show ?thesis
    proof (cases r)
      case (Inl e)
      with Pair v v1 show ?thesis
        by (auto simp: handler_def split: option.splits)
    next
      case (Inr chat)
      obtain r2 st2 where l: "retryLoop apiKeys backend (the query) (length apiKeys * 2) 0 chat None st1 = (r2, st2)"
        by (cases "retryLoop apiKeys backend (the query) (length apiKeys * 2) 0 chat None st1")
      then have "cursor_valid apiKeys st2"
        using retryLoop_cursor_valid [OF v1, of backend "the query" "length apiKeys * 2" 0 chat None]
        by simp
      with Pair Inr v v1 l show ?thesis
        by (auto simp: handler_def split: option.splits sum.splits)
    qed
  qed
qed

lemma serve_cursor_valid:
  "cursor_valid apiKeys st \<Longrightarrow> cursor_valid apiKeys (snd (serve apiKeys reqs st))"
proof (induction reqs arbitrary: st)
  case Nil
  then show ?case by simp
next
  case (Cons req reqs)
  obtain backend query where req: "req = (backend, query)"
    by (cases req)
  obtain res st' where h: "handler apiKeys backend query st = (res, st')"
    by (cases "handler apiKeys backend query st")
  then have "cursor_valid apiKeys st'"
    using handler_cursor_valid [OF Cons.prems, of backend query] by simp
  from Cons.IH [OF this] req h show ?case
    by (auto split: prod.splits)
qed

section \<open>Round-robin allocation and the retry loop\<close>

lemma round_robin_0: "c < length apiKeys \<Longrightarrow> round_robin apiKeys c 0 = apiKeys ! c"
  by (simp add: round_robin_def)

lemma round_robin_shift:
  "round_robin apiKeys (Suc c mod length apiKeys) i = round_robin apiKeys c (Suc i)"
proof -
  have "(Suc c mod length apiKeys + i) mod length apiKeys = (c + Suc i) mod length apiKeys"
    by (simp add: mod_add_left_eq)
  then show ?thesis by (simp add: round_robin_def)
qed

lemma map_round_robin_rotate:
  "c < length apiKeys \<Longrightarrow> map (round_robin apiKeys c) [0..<length apiKeys] = rotate c apiKeys"
  by (rule nth_equalityI) (simp_all add: round_robin_def nth_rotate)

lemma upt_0_Suc_shift: "[0..<Suc n] = 0 # map Suc [0..<n]"
proof -
  have "[0..<Suc n] = 0 # [Suc 0..<Suc n]"
    by (rule upt_conv_Cons) simp
  then show ?thesis
    by (simp only: map_Suc_upt)
qed

lemma getModel_calls_round_robin:
  assumes "[] \<notin> set apiKeys" "currentKeyIndex st = Num c" "c < length apiKeys"
  shows "getModel_calls n apiKeys st =
           (map (\<lambda>i. Inr (round_robin apiKeys c i)) [0..<n],
            st\<lparr>currentKeyIndex := Num ((c + n) mod length apiKeys)\<rparr>)"
  using assms(2,3)
proof (induction n arbitrary: c st)
  case 0
  then show ?case by simp
next
  case (Suc n)
  let ?c' = "Suc c mod length apiKeys"
  let ?st' = "st\<lparr>currentKeyIndex := Num ?c'\<rparr>"
  have g: "getModel apiKeys st = (Inr (apiKeys ! c), ?st')"
    using getModel_at [OF Suc.prems assms(1)] .
  have lt: "?c' < length apiKeys"
    using Suc.prems(2) by (intro mod_less_divisor) auto
  have rest: "getModel_calls n apiKeys ?st' =
      (map (\<lambda>i. Inr (round_robin apiKeys ?c' i)) [0..<n],
       ?st'\<lparr>currentKeyIndex := Num ((?c' + n) mod length apiKeys)\<rparr>)"
    using lt by (intro Suc.IH) simp_all
  have idx: "(?c' + n) mod length apiKeys = (c + Suc n) mod length apiKeys"
    by (simp add: mod_add_left_eq)
  have "getModel_calls (Suc n) apiKeys st =
      (Inr (apiKeys ! c) # map (\<lambda>i. Inr (round_robin apiKeys c (Suc i))) [0..<n],
       st\<lparr>currentKeyIndex := Num ((c + Suc n) mod length apiKeys)\<rparr>)"
    by (simp only: getModel_calls.simps g prod.case rest round_robin_shift idx; simp)
  also have "Inr (apiKeys ! c) # map (\<lambda>i. Inr (round_robin apiKeys c (Suc i))) [0..<n] =
      map (\<lambda>i. Inr (round_robin apiKeys c i)) [0..<Suc n]"
    by (simp only: upt_0_Suc_shift [of n] list.map map_map comp_def
        round_robin_0 [OF Suc.prems(2)])
  finally show ?case .
qed

lemma retryable_iff:
  "retryable err \<longleftrightarrow>
     isQuotaError (or_else (js_error.message err) []) \<or>
     isServiceOverloaded (or_else (js_error.message err) [])"
  by (simp add: retryable_def classify_def)

lemma createChatSession_at:
  assumes "currentKeyIndex st = Num c" "c < length apiKeys" "[] \<notin> set apiKeys"
  shows "createChatSession apiKeys st =
           (Inr (apiKeys ! c),
            st\<lparr>currentKeyIndex := Num (Suc c mod length apiKeys),
               sessions := sessions st @ [apiKeys ! c]\<rparr>)"
  by (simp add: createChatSession_def getModel_at [OF assms])

lemma retryLoop_retries:
  assumes keys: "[] \<notin> set apiKeys" "0 < length apiKeys"
    and st: "currentKeyIndex st = Num ((c + 1) mod length apiKeys)"
    and fails: "\<forall>i<j. backend i (round_robin apiKeys c i) query = Inl (E i) \<and> retryable (E i)"
    and bound: "j \<le> MAX_RETRIES"
  shows "retryLoop apiKeys backend query MAX_RETRIES 0 (round_robin apiKeys c 0) None st =
         retryLoop apiKeys backend query MAX_RETRIES j (round_robin apiKeys c j)
           (if j = 0 then None else Some (E (j - 1))) (after_retries apiKeys c j st)"
  using fails bound
proof (induction j)
  case 0
  have "after_retries apiKeys c 0 st = st"
    using st by (simp add: after_retries_def)
  then show ?case by simp
next
  case (Suc j)
  let ?K = "round_robin apiKeys c"
  let ?N = "length apiKeys"
  let ?le = "if j = 0 then None else Some (E (j - 1))"
  let ?stj = "after_retries apiKeys c j st"
  let ?st1 = "?stj\<lparr>sends := sends ?stj @ [?K j]\<rparr>"
  let ?st2 = "?st1\<lparr>currentKeyIndex := Num (Suc ((c + j + 1) mod ?N) mod ?N),
                   sessions := sessions ?st1 @ [?K (Suc j)]\<rparr>"
  have IH: "retryLoop apiKeys backend query MAX_RETRIES 0 (?K 0) None st =
         retryLoop apiKeys backend query MAX_RETRIES j (?K j) ?le ?stj"
    using Suc by simp
  have lt: "j < MAX_RETRIES"
    using Suc.prems(2) by simp
  have fail: "backend j (?K j) query = Inl (E j)" "retryable (E j)"
    using Suc.prems(1) by simp_all
  have cur: "currentKeyIndex ?st1 = Num ((c + j + 1) mod ?N)"
    by (simp add: after_retries_def)
  have key: "apiKeys ! ((c + j + 1) mod ?N) = ?K (Suc j)"
    by (simp add: round_robin_def)
  have "createChatSession apiKeys ?st1 =
      (Inr (apiKeys ! ((c + j + 1) mod ?N)),
       ?st1\<lparr>currentKeyIndex := Num (Suc ((c + j + 1) mod ?N) mod ?N),
           sessions := sessions ?st1 @ [apiKeys ! ((c + j + 1) mod ?N)]\<rparr>)"
    using keys(2) by (intro createChatSession_at [OF cur _ keys(1)]) simp
  then have c: "createChatSession apiKeys ?st1 = (Inr (?K (Suc j)), ?st2)"
    by (simp only: key)
  have st2: "?st2 = after_retries apiKeys c (Suc j) st"
    by (rule server.equality) (simp_all add: after_retries_def mod_Suc_eq round_robin_def)
  have "retryLoop apiKeys backend query MAX_RETRIES j (?K j) ?le ?stj =
        (case createChatSession apiKeys ?st1 of
           (Inl e, st2) \<Rightarrow> (Inl e, st2)
         | (Inr chatSession', st2) \<Rightarrow>
             retryLoop apiKeys backend query MAX_RETRIES (j + 1) chatSession' (Some (E j)) st2)"
    using lt fail(1) fail(2) [unfolded retryable_iff]
    by (subst retryLoop.simps) (simp add: Let_def)
  also have "\<dots> = retryLoop apiKeys backend query MAX_RETRIES (j + 1) (?K (Suc j)) (Some (E j))
        (after_retries apiKeys c (Suc j) st)"
    by (simp only: c prod.case sum.case st2)
  finally show ?case
    using IH by simp
qed

lemma handler_unfold:
  assumes keys: "[] \<notin> set apiKeys"
    and cur: "currentKeyIndex st = Num c" "c < length apiKeys"
    and q: "q \<noteq> []"
    and fails: "\<forall>i<j. backend i (round_robin apiKeys c i) q = Inl (E i) \<and> retryable (E i)"
    and bound: "j \<le> length apiKeys * 2"
  shows "handler apiKeys backend (Some q) st =
     (case retryLoop apiKeys backend q (length apiKeys * 2) j (round_robin apiKeys c j)
             (if j = 0 then None else Some (E (j - 1)))
             (st\<lparr>currentKeyIndex := Num (Suc (c + j) mod length apiKeys),
                 sessions := sessions st @ map (round_robin apiKeys c) [0..<Suc j],
                 sends := sends st @ map (round_robin apiKeys c) [0..<j]\<rparr>) of
        (Inl criticalError, st2) \<Rightarrow> (internal_error criticalError, st2)
      | (Inr res, st2) \<Rightarrow> (res, st2))"
proof -
  let ?K = "round_robin apiKeys c"
  let ?N = "length apiKeys"
  let ?st1 = "st\<lparr>currentKeyIndex := Num (Suc c mod ?N), sessions := sessions st @ [apiKeys ! c]\<rparr>"
  have pos: "0 < ?N" "apiKeys \<noteq> []"
    using cur(2) by auto
  have c1: "createChatSession apiKeys st = (Inr (?K 0), ?st1)"
    using createChatSession_at [OF cur keys] by (simp add: round_robin_0 [OF cur(2)])
  have cur1: "currentKeyIndex ?st1 = Num ((c + 1) mod ?N)"
    by simp
  have loop: "retryLoop apiKeys backend q (?N * 2) 0 (?K 0) None ?st1 =
      retryLoop apiKeys backend q (?N * 2) j (?K j)
        (if j = 0 then None else Some (E (j - 1))) (after_retries apiKeys c j ?st1)"
    by (rule retryLoop_retries [where backend = backend and E = E, OF keys pos(1) cur1 fails bound])
  have "[0..<Suc j] = 0 # [Suc 0..<Suc j]"
    by (rule upt_conv_Cons) simp
  then have st: "after_retries apiKeys c j ?st1 =
      st\<lparr>currentKeyIndex := Num (Suc (c + j) mod ?N),
         sessions := sessions st @ map ?K [0..<Suc j],
         sends := sends st @ map ?K [0..<j]\<rparr>"
    by (intro server.equality) (simp_all add: after_retries_def round_robin_0 [OF cur(2)])
  show ?thesis
    using q pos(2) by (simp add: handler_def c1 loop st del: upt_Suc)
qed

lemma handler_exhausts:
  assumes keys: "[] \<notin> set apiKeys"
    and cur: "currentKeyIndex st = Num c" "c < length apiKeys"
    and q: "q \<noteq> []"
    and fails: "\<forall>i<length apiKeys * 2.
        backend i (round_robin apiKeys c i) q = Inl (E i) \<and> retryable (E i)"
  shows "handler apiKeys backend (Some q) st =
     (internal_error (exhausted (length apiKeys * 2) (Some (E (length apiKeys * 2 - 1)))),
      st\<lparr>currentKeyIndex := Num (Suc (c + length apiKeys * 2) mod length apiKeys),
         sessions := sessions st @ map (round_robin apiKeys c) [0..<Suc (length apiKeys * 2)],
         sends := sends st @ map (round_robin apiKeys c) [0..<length apiKeys * 2]\<rparr>)"
proof -
  have "length apiKeys * 2 \<noteq> 0"
    using cur(2) by auto
  then show ?thesis
    by (simp only: handler_unfold [where backend = backend and E = E and j = "length apiKeys * 2",
          OF keys cur q fails order_refl])
       (simp add: retryLoop.simps [of _ _ _ "length apiKeys * 2" "length apiKeys * 2"] del: upt_Suc)
qed

lemma handler_fatal:
  assumes keys: "[] \<notin> set apiKeys"
    and cur: "currentKeyIndex st = Num c" "c < length apiKeys"
    and q: "q \<noteq> []"
    and fails: "\<forall>i<j. backend i (round_robin apiKeys c i) q = Inl (E i) \<and> retryable (E i)"
    and bound: "j < length apiKeys * 2"
    and fatal: "backend j (round_robin apiKeys c j) q = Inl err" "\<not> retryable err"
  shows "handler apiKeys backend (Some q) st =
     (internal_error err,
      st\<lparr>currentKeyIndex := Num (Suc (c + j) mod length apiKeys),
         sessions := sessions st @ map (round_robin apiKeys c) [0..<Suc j],
         sends := sends st @ map (round_robin apiKeys c) [0..<Suc j]\<rparr>)"
proof -
  have le: "j \<le> length apiKeys * 2"
    using bound by simp
  show ?thesis
    using bound fatal(1) fatal(2) [unfolded retryable_iff]
    by (simp only: handler_unfold [where backend = backend and E = E and j = j,
          OF keys cur q fails le])
       (simp add: retryLoop.simps [of _ _ _ "length apiKeys * 2" j] Let_def)
qed

lemma handler_success:
  assumes keys: "[] \<notin> set apiKeys"
    and cur: "currentKeyIndex st = Num c" "c < length apiKeys"
    and q: "q \<noteq> []"
    and fails: "\<forall>i<j. backend i (round_robin apiKeys c i) q = Inl (E i) \<and> retryable (E i)"
    and bound: "j < length apiKeys * 2"
    and ok: "backend j (round_robin apiKeys c j) q = Inr rawText"
  shows "handler apiKeys backend (Some q) st =
     (\<lparr>status = 200, json = CodeJson (formatResponse rawText)\<rparr>,
      st\<lparr>currentKeyIndex := Num (Suc (c + j) mod length apiKeys),
         sessions := sessions st @ map (round_robin apiKeys c) [0..<Suc j],
         sends := sends st @ map (round_robin apiKeys c) [0..<Suc j]\<rparr>)"
proof -
  have le: "j \<le> length apiKeys * 2"
    using bound by simp
  show ?thesis
    using bound ok
    by (simp only: handler_unfold [where backend = backend and E = E and j = j,
          OF keys cur q fails le])
       (simp add: retryLoop.simps [of _ _ _ "length apiKeys * 2" j] Let_def)
qed

section \<open>The response normalizer\<close>

text \<open>
  C2, as amended. \<open>formatResponse\<close> is total, and its result is determined by the
  first fenced block of the text: when that block has a non-empty interior, \<open>code\<close> is
  the trimmed interior; when there is no fenced block, or the interior of the first
  one is empty, \<open>code\<close> is the text with every marker removed, trimmed.
\<close>

theorem formatResponse_first_block:
  "formatResponse rawText =
     (case spec_first_block rawText of
        Some interior \<Rightarrow>
          if interior \<noteq> [] then \<lparr>code = trim interior\<rparr>
          else \<lparr>code = trim (replace_fences rawText)\<rparr>
      | None \<Rightarrow> \<lparr>code = trim (replace_fences rawText)\<rparr>)"
  by (simp add: formatResponse_def codeBlockRegex_match_eq)

theorem formatResponse_first_block_witness:
  "formatResponse sample_block = \<lparr>code = js ''console.log(1)''\<rparr>"
proof -
  have "spec_first_block sample_block = Some (js ''console.log(1)'' @ [LF])"
    by code_simp
  moreover have "trim (js ''console.log(1)'' @ [LF]) = js ''console.log(1)''"
    by code_simp
  ultimately show ?thesis
    using formatResponse_first_block [of sample_block] by simp
qed

text \<open>
  C2 as stated fails where the first fenced block is empty and other text follows: the
  trimmed interior is the empty string, but the code falls back to removing the markers.
\<close>

theorem normalize_empty_block_counterexample:
  "spec_normalize empty_block_then_text = \<lparr>code = []\<rparr> \<and>
   formatResponse empty_block_then_text = \<lparr>code = js ''x''\<rparr> \<and>
   formatResponse empty_block_then_text \<noteq> spec_normalize empty_block_then_text"
  by code_simp

text \<open>
  C10. For every input, \<open>code\<close> contains no three consecutive backticks and has no
  white space at either end.
\<close>

theorem formatResponse_clean:
  "\<not> js_includes (code (formatResponse rawText)) fence \<and>
   noOuterWhiteSpace (code (formatResponse rawText))"
  by (simp add: js_includes_def formatResponse_no_fence formatResponse_trimmed)

theorem formatResponse_clean_witness:
  "code (formatResponse sample_block) = js ''console.log(1)'' \<and>
   \<not> js_includes (js ''console.log(1)'') fence \<and>
   noOuterWhiteSpace (js ''console.log(1)'')"
proof -
  have v: "code (formatResponse sample_block) = js ''console.log(1)''"
    by code_simp
  from formatResponse_clean [of sample_block] show ?thesis
    unfolding v by (simp add: v)
qed

text \<open>
  C8. On a text without any marker, \<open>formatResponse\<close> only trims, and applying it to
  its own output gives the same result.
\<close>

theorem normalize_idempotent:
  assumes "\<not> js_includes x fence"
  shows "formatResponse x = \<lparr>code = trim x\<rparr> \<and>
         formatResponse (code (formatResponse x)) = formatResponse x"
proof -
  from assms have nf: "\<not> sublist fence x"
    by (simp add: js_includes_def)
  have "formatResponse x = \<lparr>code = trim x\<rparr>"
    by (simp add: formatResponse_def no_fence_match_None [OF nf] no_fence_replace_id [OF nf])
  moreover have "formatResponse (code (formatResponse x)) = formatResponse x"
    by (rule formatResponse_idem)
  ultimately show ?thesis
    by (rule conjI)
qed

theorem normalize_idempotent_witness:
  "\<not> js_includes padded_text fence \<and>
   formatResponse padded_text = \<lparr>code = js ''no fences here''\<rparr> \<and>
   formatResponse (js ''no fences here'') = \<lparr>code = js ''no fences here''\<rparr>"
proof -
  have h: "\<not> js_includes padded_text fence"
    by code_simp
  have t: "trim padded_text = js ''no fences here''"
    by code_simp
  note w = normalize_idempotent [OF h, unfolded t]
  have a: "formatResponse padded_text = \<lparr>code = js ''no fences here''\<rparr>"
    using w by (rule conjunct1)
  have b: "formatResponse (code (formatResponse padded_text)) = formatResponse padded_text"
    using w by (rule conjunct2)
  from b have "formatResponse (js ''no fences here'') = \<lparr>code = js ''no fences here''\<rparr>"
    unfolding a by simp
  with h a show ?thesis
    by (intro conjI)
qed

section \<open>The credential pool\<close>

lemma rotate_positions:
  "c < length apiKeys \<Longrightarrow>
   map (\<lambda>i. apiKeys ! i) (rotate c [0..<length apiKeys]) = rotate c apiKeys"
  by (simp add: rotate_map [symmetric] map_nth)

text \<open>
  C3. From any valid cursor position \<open>c\<close>, as many \<open>getModel\<close> calls as there are keys
  return the keys in their configured order, cyclically from position \<open>c\<close> (from
  position 0: exactly the configured list); every position is used exactly once; the
  next call returns the key of the first call again.
\<close>

theorem round_robin_cycle:
  assumes "[] \<notin> set apiKeys" "currentKeyIndex st = Num c" "c < length apiKeys"
  shows "fst (getModel_calls (length apiKeys) apiKeys st) = map Inr (rotate c apiKeys) \<and>
         fst (getModel_calls (length apiKeys) apiKeys st) =
           map (\<lambda>i. Inr (apiKeys ! i)) (rotate c [0..<length apiKeys]) \<and>
         distinct (rotate c [0..<length apiKeys]) \<and>
         set (rotate c [0..<length apiKeys]) = {0..<length apiKeys} \<and>
         fst (getModel_calls (Suc (length apiKeys)) apiKeys st) =
           map Inr (rotate c apiKeys) @ [Inr (apiKeys ! c)] \<and>
         hd (rotate c apiKeys) = apiKeys ! c \<and>
         snd (getModel_calls (length apiKeys) apiKeys st) = st"
proof -
  let ?N = "length apiKeys"
  have ne: "apiKeys \<noteq> []"
    using assms(3) by auto
  have calls: "fst (getModel_calls ?N apiKeys st) = map Inr (rotate c apiKeys)"
    by (simp add: getModel_calls_round_robin [OF assms]
        map_round_robin_rotate [OF assms(3), symmetric])
  have pos: "fst (getModel_calls ?N apiKeys st) =
      map (\<lambda>i. Inr (apiKeys ! i)) (rotate c [0..<?N])"
  proof -
    have "map (\<lambda>i. Inr (apiKeys ! i)) (rotate c [0..<?N]) =
        map Inr (map (\<lambda>i. apiKeys ! i) (rotate c [0..<?N]))"
      by simp
    then have "map (\<lambda>i. Inr (apiKeys ! i)) (rotate c [0..<?N]) = map Inr (rotate c apiKeys)"
      by (simp only: rotate_positions [OF assms(3)])
    with calls show ?thesis
      by (rule trans [OF _ sym])
  qed
  have "round_robin apiKeys c ?N = apiKeys ! c"
    using assms(3) by (simp add: round_robin_def)
  then have extra: "fst (getModel_calls (Suc ?N) apiKeys st) =
      map Inr (rotate c apiKeys) @ [Inr (apiKeys ! c)]"
    by (simp add: getModel_calls_round_robin [OF assms]
        map_round_robin_rotate [OF assms(3), symmetric])
  have fst_key: "hd (rotate c apiKeys) = apiKeys ! c"
    using assms(3) by (simp add: hd_rotate_conv_nth [OF ne])
  have returns: "snd (getModel_calls ?N apiKeys st) = st"
    using assms(2,3) by (simp add: getModel_calls_round_robin [OF assms])
  show ?thesis
    using calls pos extra fst_key returns by simp
qed

theorem round_robin_cycle_witness:
  "[] \<notin> set three_keys \<and>
   fst (getModel_calls 3 three_keys (init_server\<lparr>currentKeyIndex := Num 1\<rparr>)) =
     [Inr (js ''key2''), Inr (js ''key3''), Inr (js ''key1'')] \<and>
   fst (getModel_calls (Suc 3) three_keys (init_server\<lparr>currentKeyIndex := Num 1\<rparr>)) =
     [Inr (js ''key2''), Inr (js ''key3''), Inr (js ''key1''), Inr (js ''key2'')]"
proof -
  have h1: "[] \<notin> set three_keys"
    by (simp add: three_keys_def js_def)
  have h2: "currentKeyIndex (init_server\<lparr>currentKeyIndex := Num 1\<rparr>) = Num 1"
    by simp
  have h3: "1 < length three_keys"
    by (simp add: three_keys_def)
  have len: "length three_keys = 3"
    by (simp add: three_keys_def)
  have rot: "rotate 1 three_keys = [js ''key2'', js ''key3'', js ''key1'']"
    by (simp add: three_keys_def rotate1_def)
  have k: "three_keys ! 1 = js ''key2''"
    by (simp add: three_keys_def)
  note w = round_robin_cycle [OF h1 h2 h3, unfolded len rot k]
  from w have a: "fst (getModel_calls 3 three_keys (init_server\<lparr>currentKeyIndex := Num 1\<rparr>)) =
      map Inr [js ''key2'', js ''key3'', js ''key1'']"
    by (rule conjunct1)
  from w have b: "fst (getModel_calls (Suc 3) three_keys (init_server\<lparr>currentKeyIndex := Num 1\<rparr>)) =
      map Inr [js ''key2'', js ''key3'', js ''key1''] @ [Inr (js ''key2'')]"
    by blast
  from h1 a b show ?thesis
    by simp
qed

text \<open>
  C9. For a non-empty pool the cursor is a valid index at start; every \<open>getModel\<close> call
  moves it on by one modulo the pool size; \<open>getModel\<close>, \<open>createChatSession\<close>, the
  request handler and any sequence of requests served one after the other keep it valid.
\<close>

theorem cursor_invariant:
  assumes "apiKeys \<noteq> []" "cursor_valid apiKeys st"
  shows "cursor_valid apiKeys init_server \<and>
         (\<exists>n. n < length apiKeys \<and> currentKeyIndex st = Num n \<and>
              currentKeyIndex (snd (getModel apiKeys st)) = Num ((n + 1) mod length apiKeys)) \<and>
         cursor_valid apiKeys (snd (getModel apiKeys st)) \<and>
         cursor_valid apiKeys (snd (createChatSession apiKeys st)) \<and>
         cursor_valid apiKeys (snd (handler apiKeys backend query st)) \<and>
         cursor_valid apiKeys (snd (serve apiKeys reqs st)) \<and>
         cursor_valid apiKeys (snd (serve apiKeys reqs init_server))"
proof -
  have init: "cursor_valid apiKeys init_server"
    using assms(1) by (simp add: cursor_valid_def init_server_def)
  obtain n where n: "currentKeyIndex st = Num n" "n < length apiKeys"
    using assms(2) by (auto simp: cursor_valid_def split: js_number.splits)
  have step: "currentKeyIndex (snd (getModel apiKeys st)) = Num ((n + 1) mod length apiKeys)"
    using getModel_cursor [OF n] by simp
  show ?thesis
    using init n step getModel_cursor_valid [OF assms(2)]
      createChatSession_cursor_valid [OF assms(2)]
      handler_cursor_valid [OF assms(2), of backend query]
      serve_cursor_valid [OF assms(2), of reqs] serve_cursor_valid [OF init, of reqs]
    by blast
qed

theorem cursor_invariant_witness:
  "two_keys \<noteq> [] \<and> cursor_valid two_keys (init_server\<lparr>currentKeyIndex := Num 1\<rparr>) \<and>
   currentKeyIndex (snd (getModel two_keys (init_server\<lparr>currentKeyIndex := Num 1\<rparr>))) = Num 0 \<and>
   cursor_valid two_keys (snd (handler two_keys (always_failing (Error None)) (Some (js ''q''))
     (init_server\<lparr>currentKeyIndex := Num 1\<rparr>)))"
proof -
  have h1: "two_keys \<noteq> []"
    by (simp add: two_keys_def)
  have h2: "cursor_valid two_keys (init_server\<lparr>currentKeyIndex := Num 1\<rparr>)"
    by (simp add: cursor_valid_def two_keys_def)
  from cursor_invariant [OF h1 h2, of "always_failing (Error None)" "Some (js ''q'')" "[]"] h1 h2
  show ?thesis
    by (auto simp: two_keys_def)
qed

section \<open>The request handler\<close>

text \<open>
  C7. A request whose query parameter is missing or empty is answered with status 400
  and the literal message; the state is unchanged, so no key is taken and no session
  is started.
\<close>

theorem missing_query_400:
  assumes "query = None \<or> query = Some []"
  shows "handler apiKeys backend query st =
           (\<lparr>status = 400, json = ErrorJson True (js ''Missing 'query' parameter.'') None\<rparr>, st)"
  using assms by (auto simp: handler_def bad_request_def)

theorem missing_query_400_witness:
  "handler two_keys (always_failing (Error None)) None init_server =
     (\<lparr>status = 400, json = ErrorJson True (js ''Missing 'query' parameter.'') None\<rparr>, init_server) \<and>
   handler two_keys (always_failing (Error None)) (Some []) init_server =
     (\<lparr>status = 400, json = ErrorJson True (js ''Missing 'query' parameter.'') None\<rparr>, init_server)"
  using missing_query_400 [of None two_keys "always_failing (Error None)" init_server]
    missing_query_400 [of "Some []" two_keys "always_failing (Error None)" init_server]
  by simp

section \<open>Classification of a failure\<close>

lemma ci_prefix_lower:
  "\<forall>p\<in>set pat. toLowerUnit p = p \<Longrightarrow> ci_prefix pat s = prefix pat (toLowerCase s)"
  by (induction pat s rule: ci_prefix.induct) (auto simp: toLowerCase_def same_letter_def)

lemma contains_ignoring_case_lower:
  assumes "\<forall>p\<in>set pat. toLowerUnit p = p"
  shows "contains_ignoring_case s pat = js_includes (toLowerCase s) pat"
proof (induction s)
  case Nil
  then show ?case
    by (cases pat) (simp_all add: js_includes_def toLowerCase_def)
next
  case (Cons c cs)
  have "ci_prefix pat (c # cs) = prefix pat (toLowerCase (c # cs))"
    by (rule ci_prefix_lower [OF assms])
  with Cons show ?case
    by (simp add: js_includes_def toLowerCase_def sublist_Cons_right)
qed

lemma quota_lower: "\<forall>p\<in>set (js ''quota''). toLowerUnit p = p"
  by (simp add: js_def toLowerUnit_def)

text \<open>
  C4. The class of an error message is \<open>QUOTA_LIMIT\<close> when it contains \<open>429\<close> or, in any
  case of its letters, \<open>quota\<close>; otherwise \<open>SERVICE_OVERLOADED\<close> when it contains \<open>503\<close> or
  \<open>Overloaded\<close>; otherwise \<open>API_ATTEMPT_ERROR\<close>, the class that the loop does not retry.
\<close>

theorem classify_spec:
  "classify errorMsg = spec_classify errorMsg \<and>
   (retryable err \<longleftrightarrow> spec_classify (or_else (js_error.message err) []) \<noteq> API_ATTEMPT_ERROR)"
  by (simp add: classify_def spec_classify_def retryable_def isQuotaError_def
      isServiceOverloaded_def contains_ignoring_case_lower [OF quota_lower])

theorem classify_spec_witness:
  "classify (js ''Resource QUOTA exhausted'') = QUOTA_LIMIT \<and>
   classify (js ''HTTP 429 and 503'') = QUOTA_LIMIT \<and>
   classify (js ''The model is Overloaded'') = SERVICE_OVERLOADED \<and>
   classify (js ''the model is overloaded'') = API_ATTEMPT_ERROR \<and>
   classify [] = API_ATTEMPT_ERROR"
proof -
  have "spec_classify (js ''Resource QUOTA exhausted'') = QUOTA_LIMIT"
    "spec_classify (js ''HTTP 429 and 503'') = QUOTA_LIMIT"
    "spec_classify (js ''The model is Overloaded'') = SERVICE_OVERLOADED"
    "spec_classify (js ''the model is overloaded'') = API_ATTEMPT_ERROR"
    "spec_classify [] = API_ATTEMPT_ERROR"
    by code_simp+
  then show ?thesis
    by (simp add: classify_spec)
qed

section \<open>The retry loop\<close>

text \<open>
  C1. When every attempt fails with a retried failure, the handler sends the query
  exactly twice the pool size times, on the keys in round-robin order from the cursor,
  and then answers 500 with \<open>details\<close> quoting the attempt limit and the message of the
  failure of the last attempt.
\<close>

theorem retry_exhaustion:
  assumes keys: "[] \<notin> set apiKeys"
    and cur: "currentKeyIndex st = Num c" "c < length apiKeys"
    and q: "q \<noteq> []"
    and fails: "\<forall>i<2 * length apiKeys.
        \<exists>e. backend i (round_robin apiKeys c i) q = Inl e \<and> retryable e"
  shows "(\<exists>e. backend (2 * length apiKeys - 1)
                (round_robin apiKeys c (2 * length apiKeys - 1)) q = Inl e \<and>
              fst (handler apiKeys backend (Some q) st) =
                \<lparr>status = 500,
                 json = ErrorJson True (js ''Internal Server Error'')
                   (Some (js ''Failed after '' @ decimal (2 * length apiKeys) @
                      js '' attempts. Last error: '' @
                      (case js_error.message e of None \<Rightarrow> js ''undefined'' | Some m \<Rightarrow> m)))\<rparr>) \<and>
         sends (snd (handler apiKeys backend (Some q) st)) =
           sends st @ map (round_robin apiKeys c) [0..<2 * length apiKeys] \<and>
         length (sends (snd (handler apiKeys backend (Some q) st))) =
           length (sends st) + 2 * length apiKeys"
proof -
  let ?M = "length apiKeys * 2"
  from fails obtain E where E:
    "\<forall>i<?M. backend i (round_robin apiKeys c i) q = Inl (E i) \<and> retryable (E i)"
    by (metis mult.commute)
  have pos: "?M - 1 < ?M"
    using cur(2) by auto
  note h = handler_exhausts [where backend = backend and E = E, OF keys cur q E]
  have "backend (?M - 1) (round_robin apiKeys c (?M - 1)) q = Inl (E (?M - 1))"
    using E pos by blast
  then show ?thesis
    by (simp add: h mult.commute internal_error_def exhausted_def del: upt_Suc)
qed

theorem retry_exhaustion_witness:
  "[] \<notin> set two_keys \<and> retryable quota_error \<and>
   fst (handler two_keys (always_failing quota_error) (Some (js ''q'')) init_server) =
     \<lparr>status = 500,
      json = ErrorJson True (js ''Internal Server Error'')
        (Some (js ''Failed after 4 attempts. Last error: 429 Too Many Requests''))\<rparr> \<and>
   sends (snd (handler two_keys (always_failing quota_error) (Some (js ''q'')) init_server)) =
     [js ''key1'', js ''key2'', js ''key1'', js ''key2'']"
proof -
  have h1: "[] \<notin> set two_keys"
    by (simp add: two_keys_def js_def)
  have h2: "currentKeyIndex init_server = Num 0"
    by (simp add: init_server_def)
  have h3: "0 < length two_keys"
    by (simp add: two_keys_def)
  have h4: "js ''q'' \<noteq> []"
    by (simp add: js_def)
  have r: "retryable quota_error"
    by code_simp
  have h5: "\<forall>i<2 * length two_keys.
      \<exists>e. always_failing quota_error i (round_robin two_keys 0 i) (js ''q'') = Inl e \<and> retryable e"
    by (simp add: always_failing_def r)
  have ks: "map (round_robin two_keys 0) [0..<4] =
      [js ''key1'', js ''key2'', js ''key1'', js ''key2'']"
    by code_simp
  have s0: "sends init_server = []"
    by (simp add: init_server_def)
  have len: "2 * length two_keys = 4"
    by (simp add: two_keys_def)
  have details_text: "js ''Failed after '' @ decimal 4 @ js '' attempts. Last error: '' @
      (case js_error.message quota_error of None \<Rightarrow> js ''undefined'' | Some m \<Rightarrow> m) =
      js ''Failed after 4 attempts. Last error: 429 Too Many Requests''"
    by code_simp
  note w = retry_exhaustion [where backend = "always_failing quota_error",
      OF h1 h2 h3 h4 h5, unfolded ks s0 len]
  from w obtain e where e: "always_failing quota_error 3 (round_robin two_keys 0 3) (js ''q'') = Inl e"
    and res: "fst (handler two_keys (always_failing quota_error) (Some (js ''q'')) init_server) =
      \<lparr>status = 500,
       json = ErrorJson True (js ''Internal Server Error'')
         (Some (js ''Failed after '' @ decimal 4 @ js '' attempts. Last error: '' @
            (case js_error.message e of None \<Rightarrow> js ''undefined'' | Some m \<Rightarrow> m)))\<rparr>"
    by auto
  from e have "e = quota_error"
    by (simp add: always_failing_def)
  with res have "fst (handler two_keys (always_failing quota_error) (Some (js ''q'')) init_server) =
      \<lparr>status = 500,
       json = ErrorJson True (js ''Internal Server Error'')
         (Some (js ''Failed after 4 attempts. Last error: 429 Too Many Requests''))\<rparr>"
    by (simp only: details_text)
  moreover from w have
    "sends (snd (handler two_keys (always_failing quota_error) (Some (js ''q'')) init_server)) =
       [js ''key1'', js ''key2'', js ''key1'', js ''key2'']"
    by simp
  ultimately show ?thesis
    using h1 r by simp
qed

text \<open>
  C5. When attempt \<open>j\<close> fails with a failure that is not retried, after \<open>j\<close> retried
  failures, the handler answers at once, 500 with the message of that failure as
  \<open>details\<close>: \<open>j + 1\<close> sends and \<open>j + 1\<close> sessions. On the first attempt that is one send
  on the one session created, and the cursor has moved by one.
\<close>

theorem fatal_failure_aborts:
  assumes keys: "[] \<notin> set apiKeys"
    and cur: "currentKeyIndex st = Num c" "c < length apiKeys"
    and q: "q \<noteq> []"
    and fails: "\<forall>i<j. \<exists>e. backend i (round_robin apiKeys c i) q = Inl e \<and> retryable e"
    and bound: "j < 2 * length apiKeys"
    and fatal: "backend j (round_robin apiKeys c j) q = Inl err" "\<not> retryable err"
  shows "handler apiKeys backend (Some q) st =
           (\<lparr>status = 500,
             json = ErrorJson True (js ''Internal Server Error'') (js_error.message err)\<rparr>,
            st\<lparr>currentKeyIndex := Num ((c + j + 1) mod length apiKeys),
               sessions := sessions st @ map (round_robin apiKeys c) [0..<j + 1],
               sends := sends st @ map (round_robin apiKeys c) [0..<j + 1]\<rparr>) \<and>
         length (sends (snd (handler apiKeys backend (Some q) st))) = length (sends st) + j + 1 \<and>
         (j = 0 \<longrightarrow>
            snd (handler apiKeys backend (Some q) st) =
              st\<lparr>currentKeyIndex := Num ((c + 1) mod length apiKeys),
                 sessions := sessions st @ [apiKeys ! c],
                 sends := sends st @ [apiKeys ! c]\<rparr>)"
proof -
  from fails obtain E where E:
    "\<forall>i<j. backend i (round_robin apiKeys c i) q = Inl (E i) \<and> retryable (E i)"
    by metis
  have b: "j < length apiKeys * 2"
    using bound by simp
  note h = handler_fatal [where backend = backend and E = E, OF keys cur q E b fatal]
  have one: "[0..<Suc 0] = [0]"
    by simp
  show ?thesis
    using cur(2) by (simp add: h round_robin_def one internal_error_def del: upt_Suc)
qed

theorem fatal_failure_aborts_witness:
  "[] \<notin> set two_keys \<and> \<not> retryable fatal_error \<and>
   handler two_keys (always_failing fatal_error) (Some (js ''q'')) init_server =
     (\<lparr>status = 500,
       json = ErrorJson True (js ''Internal Server Error'')
         (Some (js ''400 Bad Request: API key not valid''))\<rparr>,
      \<lparr>currentKeyIndex = Num 1, sessions = [js ''key1''], sends = [js ''key1'']\<rparr>)"
proof -
  have h1: "[] \<notin> set two_keys"
    by (simp add: two_keys_def js_def)
  have h2: "currentKeyIndex init_server = Num 0"
    by (simp add: init_server_def)
  have h3: "0 < length two_keys"
    by (simp add: two_keys_def)
  have h4: "js ''q'' \<noteq> []"
    by (simp add: js_def)
  have h5: "\<forall>i<0. \<exists>e.
      always_failing fatal_error i (round_robin two_keys 0 i) (js ''q'') = Inl e \<and> retryable e"
    by simp
  have h6: "0 < 2 * length two_keys"
    by (simp add: two_keys_def)
  have h7: "always_failing fatal_error 0 (round_robin two_keys 0 0) (js ''q'') = Inl fatal_error"
    by (simp add: always_failing_def)
  have h8: "\<not> retryable fatal_error"
    by code_simp
  have msg: "js_error.message fatal_error = Some (js ''400 Bad Request: API key not valid'')"
    by (simp add: fatal_error_def)
  from fatal_failure_aborts [where backend = "always_failing fatal_error",
      OF h1 h2 h3 h4 h5 h6 h7 h8] h1 h8 show ?thesis
    by (simp add: init_server_def two_keys_def round_robin_def msg)
qed

text \<open>
  C6 as stated fails on a fresh process: with two keys and the cursor at 0, the four
  attempts use key 1, key 2, key 1, key 2.
\<close>

theorem pool_of_two_counterexample:
  "sends (snd (handler two_keys (always_failing quota_error) (Some (js ''q'')) init_server)) =
     [js ''key1'', js ''key2'', js ''key1'', js ''key2''] \<and>
   sends (snd (handler two_keys (always_failing quota_error) (Some (js ''q'')) init_server)) \<noteq>
     [js ''key2'', js ''key1'', js ''key2'', js ''key1'']"
  by code_simp

text \<open>
  C6, as amended. With two keys and a quota error on every attempt, the four attempts
  alternate between the keys, starting with the key at the cursor: key 1 first from
  cursor 0, key 2 first from cursor 1. A fifth session is created after the last
  failure and never used, and the request fails with retry exhaustion.
\<close>

theorem pool_of_two_rotation:
  assumes keys: "k1 \<noteq> []" "k2 \<noteq> []"
    and cur: "currentKeyIndex st = Num c" "c < 2"
    and q: "q \<noteq> []"
    and fails: "\<forall>i<4. \<exists>e. backend i ([k1, k2] ! ((c + i) mod 2)) q = Inl e \<and>
                  classify (or_else (js_error.message e) []) = QUOTA_LIMIT"
  shows "(c = 0 \<longrightarrow>
            sends (snd (handler [k1, k2] backend (Some q) st)) = sends st @ [k1, k2, k1, k2] \<and>
            sessions (snd (handler [k1, k2] backend (Some q) st)) =
              sessions st @ [k1, k2, k1, k2, k1]) \<and>
         (c = 1 \<longrightarrow>
            sends (snd (handler [k1, k2] backend (Some q) st)) = sends st @ [k2, k1, k2, k1] \<and>
            sessions (snd (handler [k1, k2] backend (Some q) st)) =
              sessions st @ [k2, k1, k2, k1, k2]) \<and>
         (\<exists>e. backend 3 ([k1, k2] ! ((c + 3) mod 2)) q = Inl e \<and>
              fst (handler [k1, k2] backend (Some q) st) = internal_error (exhausted 4 (Some e)))"
proof -
  let ?keys = "[k1, k2]"
  have h1: "[] \<notin> set ?keys"
    using keys by auto
  have h3: "c < length ?keys"
    using cur(2) by simp
  from fails obtain E where E0:
    "\<forall>i<4. backend i (?keys ! ((c + i) mod 2)) q = Inl (E i) \<and>
       classify (or_else (js_error.message (E i)) []) = QUOTA_LIMIT"
    by metis
  have E: "\<forall>i<length ?keys * 2.
      backend i (round_robin ?keys c i) q = Inl (E i) \<and> retryable (E i)"
  proof (intro allI impI)
    fix i
    assume "i < length ?keys * 2"
    then have "i < 4"
      by simp
    with E0 have "backend i (?keys ! ((c + i) mod 2)) q = Inl (E i)"
      and "classify (or_else (js_error.message (E i)) []) = QUOTA_LIMIT"
      by blast+
    moreover have "round_robin ?keys c i = ?keys ! ((c + i) mod 2)"
      unfolding round_robin_def by (simp add: numeral_2_eq_2)
    ultimately show "backend i (round_robin ?keys c i) q = Inl (E i) \<and> retryable (E i)"
      by (simp add: retryable_def)
  qed
  note h = handler_exhausts [where backend = backend and E = E, OF h1 cur(1) h3 q E]
  have m4: "map f [0..<4] = [f 0, f 1, f 2, f 3]" for f :: "nat \<Rightarrow> jsstring"
    by (simp add: eval_nat_numeral)
  have m5: "map f [0..<Suc 4] = [f 0, f 1, f 2, f 3, f 4]" for f :: "nat \<Rightarrow> jsstring"
    by (simp add: eval_nat_numeral)
  have sends: "sends (snd (handler ?keys backend (Some q) st)) =
      sends st @ map (round_robin ?keys c) [0..<4]"
    by (simp add: h del: upt_Suc)
  have sessions: "sessions (snd (handler ?keys backend (Some q) st)) =
      sessions st @ map (round_robin ?keys c) [0..<Suc 4]"
    by (simp add: h del: upt_Suc)
  have rr0: "round_robin ?keys 0 0 = k1" "round_robin ?keys 0 1 = k2" "round_robin ?keys 0 2 = k1"
    "round_robin ?keys 0 3 = k2" "round_robin ?keys 0 4 = k1"
    by (simp_all add: round_robin_def eval_nat_numeral mod_Suc)
  have rr1: "round_robin ?keys 1 0 = k2" "round_robin ?keys 1 1 = k1" "round_robin ?keys 1 2 = k2"
    "round_robin ?keys 1 3 = k1" "round_robin ?keys 1 4 = k2"
    by (simp_all add: round_robin_def eval_nat_numeral mod_Suc)
  have last: "backend 3 (?keys ! ((c + 3) mod 2)) q = Inl (E 3)"
    using E0 by simp
  have res: "fst (handler ?keys backend (Some q) st) = internal_error (exhausted 4 (Some (E 3)))"
    by (simp add: h)
  have c0: "c = 0 \<Longrightarrow>
      sends (snd (handler ?keys backend (Some q) st)) = sends st @ [k1, k2, k1, k2] \<and>
      sessions (snd (handler ?keys backend (Some q) st)) = sessions st @ [k1, k2, k1, k2, k1]"
    by (simp only: sends sessions m4 m5) (simp only: rr0 simp_thms)
  have c1: "c = 1 \<Longrightarrow>
      sends (snd (handler ?keys backend (Some q) st)) = sends st @ [k2, k1, k2, k1] \<and>
      sessions (snd (handler ?keys backend (Some q) st)) = sessions st @ [k2, k1, k2, k1, k2]"
    by (simp only: sends sessions m4 m5) (simp only: rr1 simp_thms)
  from c0 c1 last res show ?thesis
    by blast
qed

theorem pool_of_two_rotation_witness:
  "classify (or_else (js_error.message quota_error) []) = QUOTA_LIMIT \<and>
   sends (snd (handler [js ''key1'', js ''key2''] (always_failing quota_error) (Some (js ''q''))
     (init_server\<lparr>currentKeyIndex := Num 1\<rparr>))) =
     [js ''key2'', js ''key1'', js ''key2'', js ''key1'']"
proof -
  have h1: "js ''key1'' \<noteq> []" and h2: "js ''key2'' \<noteq> []" and h5: "js ''q'' \<noteq> []"
    by (simp_all add: js_def)
  have h3: "currentKeyIndex (init_server\<lparr>currentKeyIndex := Num 1\<rparr>) = Num 1"
    by simp
  have h4: "(1::nat) < 2"
    by simp
  have r: "classify (or_else (js_error.message quota_error) []) = QUOTA_LIMIT"
    by code_simp
  have h6: "\<forall>i<4. \<exists>e. always_failing quota_error i
      ([js ''key1'', js ''key2''] ! ((1 + i) mod 2)) (js ''q'') = Inl e \<and>
      classify (or_else (js_error.message e) []) = QUOTA_LIMIT"
    by (simp add: always_failing_def r)
  from pool_of_two_rotation [where backend = "always_failing quota_error",
      OF h1 h2 h3 h4 h5 h6] r show ?thesis
    by (simp add: init_server_def)
qed

end
